theory Spec2Isabelle
  imports Main "HOL-Library.Word"
begin

section \<open>Data model of tracking\_api.cpp\<close>

text \<open>
  Pointers to interpreter frames (\<^verbatim>\<open>PyFrameObject*\<close>) are addresses into the host
  interpreter's object store; \<open>None\<close> is the null pointer. The store is a parameter of the
  functions that read through such a pointer.
\<close>

type_synonym frame_ptr = "nat option"

record PyFrameObject =
  co_name :: "string option"      \<comment> \<open>\<^verbatim>\<open>PyUnicode_AsUTF8(f_code->co_name)\<close>, \<open>None\<close> is nullptr\<close>
  co_filename :: "string option"  \<comment> \<open>\<^verbatim>\<open>PyUnicode_AsUTF8(f_code->co_filename)\<close>\<close>
  f_lineno :: int                 \<comment> \<open>\<^verbatim>\<open>PyFrame_GetLineNumber\<close>\<close>

type_synonym py_heap = "nat \<Rightarrow> PyFrameObject"

record RawFrame =
  function_name :: string
  filename :: string
  lineno :: int

record LazilyEmittedFrame =
  frame :: frame_ptr
  raw_frame_record :: RawFrame
  emitted :: bool

text \<open>The records of the output stream (records.h is not part of the sources at hand;
  the constructors carry the fields the code passes to the writer).\<close>

datatype record_t =
    HEADER bool
  | ALLOCATION nat nat nat nat int nat
  | FRAME_INDEX nat RawFrame
  | FRAME_PUSH nat nat
  | FRAME_POP nat "8 word"
  | NATIVE_TRACE_INDEX nat nat
  | SEGMENT_HEADER string nat nat
  | SEGMENT nat nat
  | MEMORY_MAP_START
  | MEMORY_RECORD nat nat
  | THREAD_RECORD nat string

text \<open>
  Modelled from the spec: the RecordWriter (record\_writer.h) is an external collaborator,
  a sink whose writes report success or failure. The model keeps the records accepted so
  far and the outcomes of the coming write calls; a call beyond the listed outcomes
  succeeds. A failed write adds nothing to the stream.
\<close>

record RecordWriter =
  written :: "record_t list"
  outcomes :: "bool list"

definition writeRecord :: "record_t \<Rightarrow> RecordWriter \<Rightarrow> bool \<times> RecordWriter" where
  "writeRecord r w =
     (case outcomes w of
        [] \<Rightarrow> (True, w\<lparr>written := written w @ [r]\<rparr>)
      | b # bs \<Rightarrow>
          if b then (True, w\<lparr>written := written w @ [r], outcomes := bs\<rparr>)
          else (False, w\<lparr>outcomes := bs\<rparr>))"

text \<open>
  The state one thread sees: its thread-local variables (the recursion guard's flag, the
  fields of \<^verbatim>\<open>t_python_stack_tracker\<close>), and the tracker singleton with its static
  activation flag. The shadow stack is a \<^verbatim>\<open>std::vector\<close>: bottom of the stack first,
  \<^verbatim>\<open>back()\<close> is \<open>last\<close>. \<open>d_stack = None\<close> is the null container pointer.
\<close>

record state =
  thread_id :: nat
  isActive :: bool                                 \<comment> \<open>\<^verbatim>\<open>RecursionGuard::isActive\<close>\<close>
  d_num_pending_pops :: "32 word"
  d_entry_frame :: frame_ptr
  d_stack :: "LazilyEmittedFrame list option"
  d_active :: bool                                 \<comment> \<open>\<^verbatim>\<open>Tracker::d_active\<close>\<close>
  d_writer :: RecordWriter
  d_unwind_native_frames :: bool
  d_memory_interval :: nat
  d_follow_fork :: bool
  d_frames :: "RawFrame list"
  d_native_trace_tree :: "(nat \<times> nat) list"

definition deactivate :: "state \<Rightarrow> state" where
  "deactivate g = g\<lparr>d_active := False\<rparr>"


definition tracker_write :: "record_t \<Rightarrow> state \<Rightarrow> bool \<times> state" where
  "tracker_write r g = (case writeRecord r (d_writer g) of (ok, w) \<Rightarrow> (ok, g\<lparr>d_writer := w\<rparr>))"

section \<open>Tracker: frame records\<close>

text \<open>\<^verbatim>\<open>Tracker::popFrames\<close>: the loop runs while \<open>count\<close> is not zero; \<open>to_pop\<close> is a
  \<^verbatim>\<open>uint8_t\<close>, converted back to 32 bits for the subtraction.\<close>

definition to_pop_of :: "32 word \<Rightarrow> 8 word" where
  "to_pop_of count = ucast (if 255 < count then 255 else count)"

function popFrames :: "32 word \<Rightarrow> state \<Rightarrow> bool \<times> state" where
  "popFrames count g =
     (if count = 0 then (True, g)
      else
        (let to_pop = to_pop_of count;
             count' = count - ucast to_pop
         in case tracker_write (FRAME_POP (thread_id g) to_pop) g of
              (ok, g') \<Rightarrow> if \<not> ok then (False, deactivate g') else popFrames count' g'))"
  by pat_completeness auto
termination
proof (relation "measure (\<lambda>(c, g). unat c)")
  show "wf (measure (\<lambda>(c :: 32 word, g :: state). unat c))" by simp
next
  fix c :: "32 word" and g g' :: state and tp c' ok
  assume nz: "c \<noteq> 0" and tp: "tp = to_pop_of c" and cq: "c' = c - ucast tp"
  have ucast_back: "(ucast (to_pop_of c) :: 32 word) = (if 255 < c then 255 else c)"
  proof (cases "255 < c")
    case True
    then show ?thesis by (simp add: to_pop_of_def)
  next
    case False
    then have "c \<le> 255" by simp
    then have "unat c \<le> 255" by (simp add: word_le_nat_alt)
    then have "unat c < 2 ^ 8" by simp
    then have "(ucast (ucast c :: 8 word) :: 32 word) = c"
      by (simp add: word_eq_iff_unsigned [where ?'a = nat] unsigned_ucast_eq
          unsigned_take_bit_eq take_bit_nat_eq_self_iff)
    with False show ?thesis by (simp add: to_pop_of_def)
  qed
  have "unat (c - ucast (to_pop_of c)) < unat c"
  proof (cases "255 < c")
    case True
    then have "(255 :: 32 word) \<le> c" by simp
    then have "unat (c - 255) = unat c - unat (255 :: 32 word)" by (rule unat_sub)
    moreover from True have "255 < unat c" by (simp add: word_less_nat_alt)
    ultimately show ?thesis using True by (simp add: ucast_back)
  next
    case False
    from nz have "0 < unat c" by (simp add: unat_gt_0)
    with False show ?thesis by (simp add: ucast_back)
  qed
  then show "((c', g'), c, g) \<in> measure (\<lambda>(c, g). unat c)" by (simp add: tp cq)
qed

declare popFrames.simps [simp del]

text \<open>
  Modelled from the spec: the FrameRegistry behind \<^verbatim>\<open>d_frames.getIndex\<close> (its header
  is not among the sources) interns raw frames: insert-or-get, the id assigned on first
  sight, and a flag telling whether the frame was new.
\<close>

fun find_frame :: "RawFrame \<Rightarrow> RawFrame list \<Rightarrow> nat \<Rightarrow> nat option" where
  "find_frame fr [] i = None"
| "find_frame fr (x # xs) i = (if x = fr then Some i else find_frame fr xs (Suc i))"

definition getIndex :: "RawFrame \<Rightarrow> state \<Rightarrow> (nat \<times> bool) \<times> state" where
  "getIndex fr g =
     (case find_frame fr (d_frames g) 0 of
        Some i \<Rightarrow> ((i, False), g)
      | None \<Rightarrow> ((length (d_frames g), True), g\<lparr>d_frames := d_frames g @ [fr]\<rparr>))"

definition registerFrame :: "RawFrame \<Rightarrow> state \<Rightarrow> nat \<times> state" where
  "registerFrame fr g =
     (case getIndex fr g of
        ((frame_id, is_new_frame), g1) \<Rightarrow>
          if is_new_frame then
            (case tracker_write (FRAME_INDEX frame_id fr) g1 of
               (ok, g2) \<Rightarrow> (frame_id, if \<not> ok then deactivate g2 else g2))
          else (frame_id, g1))"

definition pushFrame :: "RawFrame \<Rightarrow> state \<Rightarrow> bool \<times> state" where
  "pushFrame fr g =
     (case registerFrame fr g of
        (frame_id, g1) \<Rightarrow>
          (case tracker_write (FRAME_PUSH frame_id (thread_id g1)) g1 of
             (ok, g2) \<Rightarrow> if \<not> ok then (False, deactivate g2) else (True, g2)))"

section \<open>PythonStackTracker\<close>

definition reset :: "frame_ptr \<Rightarrow> state \<Rightarrow> state" where
  "reset current_frame g =
     (let g1 = g\<lparr>d_entry_frame := current_frame\<rparr>
      in case d_stack g1 of None \<Rightarrow> g1 | Some xs \<Rightarrow> g1\<lparr>d_stack := Some []\<rparr>)"

definition emitPendingPops :: "state \<Rightarrow> state" where
  "emitPendingPops g =
     (case popFrames (d_num_pending_pops g) g of (ok, g1) \<Rightarrow> g1\<lparr>d_num_pending_pops := 0\<rparr>)"

text \<open>\<^verbatim>\<open>emitPendingPushes\<close>: \<^verbatim>\<open>find_if\<close> over the reverse iterators stops at the topmost
  emitted frame; \<^verbatim>\<open>base()\<close> is the position just above it. The frames below that position
  are \<open>emitted_part\<close>, those from it on are \<open>pending_part\<close>; the loop walks the latter and
  stops at the first push the tracker refuses.\<close>

definition emitted_part :: "LazilyEmittedFrame list \<Rightarrow> LazilyEmittedFrame list" where
  "emitted_part xs = rev (dropWhile (\<lambda>f. \<not> emitted f) (rev xs))"

definition pending_part :: "LazilyEmittedFrame list \<Rightarrow> LazilyEmittedFrame list" where
  "pending_part xs = rev (takeWhile (\<lambda>f. \<not> emitted f) (rev xs))"

fun push_loop :: "LazilyEmittedFrame list \<Rightarrow> state \<Rightarrow> LazilyEmittedFrame list \<times> state" where
  "push_loop [] g = ([], g)"
| "push_loop (f # fs) g =
     (case pushFrame (raw_frame_record f) g of
        (ok, g1) \<Rightarrow>
          if \<not> ok then (f # fs, g1)
          else (case push_loop fs g1 of (fs', g2) \<Rightarrow> (f\<lparr>emitted := True\<rparr> # fs', g2)))"

definition emitPendingPushes :: "state \<Rightarrow> state" where
  "emitPendingPushes g =
     (case d_stack g of
        None \<Rightarrow> g
      | Some xs \<Rightarrow>
          (case push_loop (pending_part xs) g of
             (ys, g1) \<Rightarrow> g1\<lparr>d_stack := Some (emitted_part xs @ ys)\<rparr>))"

definition getCurrentPythonLineNumber :: "py_heap \<Rightarrow> state \<Rightarrow> int" where
  "getCurrentPythonLineNumber heap g =
     (let the_python_stack =
            (case d_stack g of
               Some xs \<Rightarrow> if xs \<noteq> [] then frame (last xs) else d_entry_frame g
             | None \<Rightarrow> d_entry_frame g)
      in case the_python_stack of Some a \<Rightarrow> f_lineno (heap a) | None \<Rightarrow> 0)"

text \<open>\<^verbatim>\<open>pushPythonFrame\<close>: the first call on a thread constructs the thread-local
  \<^verbatim>\<open>StackCreator\<close>, whose constructor points \<open>d_stack\<close> at its empty vector.\<close>

definition pushPythonFrame :: "frame_ptr \<Rightarrow> string \<Rightarrow> string \<Rightarrow> int \<Rightarrow> state \<Rightarrow> state" where
  "pushPythonFrame fp function file parent_lineno g =
     (let stack = (case d_stack g of None \<Rightarrow> [] | Some xs \<Rightarrow> xs)
      in g\<lparr>d_stack := Some (stack @
            [\<lparr>frame = fp,
              raw_frame_record = \<lparr>function_name = function, filename = file, lineno = parent_lineno\<rparr>,
              emitted = False\<rparr>])\<rparr>)"

text \<open>\<^verbatim>\<open>popPythonFrame\<close>: the counter is a \<^verbatim>\<open>uint32_t\<close>; the assertion that it did not
  wrap is compiled out of release builds, so the increment is the word's.\<close>

definition popPythonFrame :: "state \<Rightarrow> state" where
  "popPythonFrame g =
     (case d_stack g of
        None \<Rightarrow> g\<lparr>d_entry_frame := None\<rparr>
      | Some xs \<Rightarrow>
          if xs \<noteq> [] then
            (let g1 = (if emitted (last xs)
                       then g\<lparr>d_num_pending_pops := d_num_pending_pops g + 1\<rparr> else g);
                 g2 = g1\<lparr>d_stack := Some (butlast xs)\<rparr>
             in if butlast xs = [] then emitPendingPops g2 else g2)
          else g\<lparr>d_entry_frame := None\<rparr>)"

definition resetInChildProcess :: "state \<Rightarrow> state" where
  "resetInChildProcess g =
     (let g1 = g\<lparr>d_num_pending_pops := 0\<rparr>
      in case d_stack g1 of
           None \<Rightarrow> g1
         | Some xs \<Rightarrow> g1\<lparr>d_stack := Some (map (\<lambda>f. f\<lparr>emitted := False\<rparr>) xs)\<rparr>)"

section \<open>The allocation path\<close>

text \<open>
  Modelled from the spec: the native unwinder and the native-trace trie are external
  collaborators. The unwinder's answer is an argument of the event (\<open>None\<close> when
  \<^verbatim>\<open>trace.fill\<close> fails, otherwise the instruction pointers). The trie is specified only by
  \<^verbatim>\<open>getTraceIndex(trace, emit_fn) -> index\<close>, which hands every newly seen node to the
  callback; here a node is an edge \<open>(ip, parent index)\<close>, the k-th edge has index \<open>k + 1\<close>,
  and a refused callback ends the walk with index 0.
\<close>

fun find_child :: "nat \<times> nat \<Rightarrow> (nat \<times> nat) list \<Rightarrow> nat \<Rightarrow> nat option" where
  "find_child e [] i = None"
| "find_child e (x # xs) i = (if x = e then Some (Suc i) else find_child e xs (Suc i))"

fun getTraceIndex :: "nat list \<Rightarrow> nat \<Rightarrow> state \<Rightarrow> nat \<times> state" where
  "getTraceIndex [] parent g = (parent, g)"
| "getTraceIndex (ip # ips) parent g =
     (case find_child (ip, parent) (d_native_trace_tree g) 0 of
        Some idx \<Rightarrow> getTraceIndex ips idx g
      | None \<Rightarrow>
          (let g1 = g\<lparr>d_native_trace_tree := d_native_trace_tree g @ [(ip, parent)]\<rparr>
           in case tracker_write (NATIVE_TRACE_INDEX ip parent) g1 of
                (ok, g2) \<Rightarrow>
                  if \<not> ok then (0, g2)
                  else getTraceIndex ips (length (d_native_trace_tree g1)) g2))"

text \<open>The \<^verbatim>\<open>RecursionGuard\<close> of a scope stores the flag, sets it, and puts the
  stored flag back when the scope is left.\<close>

definition trackAllocationImpl ::
  "py_heap \<Rightarrow> nat list option \<Rightarrow> nat \<Rightarrow> nat \<Rightarrow> nat \<Rightarrow> state \<Rightarrow> state" where
  "trackAllocationImpl heap unwound ptr sz func g =
     (if isActive g \<or> \<not> d_active g then g
      else
        (let wasLocked = isActive g;
             g0 = g\<lparr>isActive := True\<rparr>;
             line = getCurrentPythonLineNumber heap g0;
             g1 = emitPendingPops g0;
             g2 = emitPendingPushes g1
         in case (if d_unwind_native_frames g2
                  then (case unwound of
                          Some ips \<Rightarrow> getTraceIndex ips 0 g2
                        | None \<Rightarrow> (0, g2))
                  else (0, g2)) of
              (native_index, g3) \<Rightarrow>
                (case tracker_write
                        (ALLOCATION (thread_id g3) ptr sz func line native_index) g3 of
                   (ok, g4) \<Rightarrow>
                     (if \<not> ok then deactivate g4 else g4)\<lparr>isActive := wasLocked\<rparr>)))"

definition trackDeallocationImpl :: "py_heap \<Rightarrow> nat \<Rightarrow> nat \<Rightarrow> nat \<Rightarrow> state \<Rightarrow> state" where
  "trackDeallocationImpl heap ptr sz func g =
     (if isActive g \<or> \<not> d_active g then g
      else
        (let wasLocked = isActive g;
             g0 = g\<lparr>isActive := True\<rparr>;
             line = getCurrentPythonLineNumber heap g0;
             g1 = emitPendingPops g0;
             g2 = emitPendingPushes g1
         in case tracker_write (ALLOCATION (thread_id g2) ptr sz func line 0) g2 of
              (ok, g3) \<Rightarrow> (if \<not> ok then deactivate g3 else g3)\<lparr>isActive := wasLocked\<rparr>))"

section \<open>The module map\<close>


record Elf_Phdr =
  p_type :: nat
  p_vaddr :: nat
  p_memsz :: nat

record dl_phdr_info =
  dlpi_name :: string
  dlpi_addr :: nat
  dlpi_phdr :: "Elf_Phdr list"   \<comment> \<open>\<^verbatim>\<open>dlpi_phnum\<close> is its length\<close>

text \<open>What the constructor reads from the process and the interpreter: the target of
  \<^verbatim>\<open>/proc/self/exe\<close> (\<open>None\<close> when \<^verbatim>\<open>readlink\<close> returns -1), the objects
  \<^verbatim>\<open>dl_iterate_phdr\<close> walks, whether \<^verbatim>\<open>/proc/self/statm\<close> opens, the interpreter's
  current frame, and whether the thread's profile function is already this hook.\<close>

record host_env =
  proc_self_exe :: "string option"
  loaded_objects :: "dl_phdr_info list"
  statm_opens :: bool
  current_frame :: frame_ptr
  hook_installed :: bool










section \<open>The tracker's constructor and the trace hook\<close>



definition PyTrace_CALL :: int where
  "PyTrace_CALL = 0"

definition PyTrace_RETURN :: int where
  "PyTrace_RETURN = 3"

definition PyTraceFunction :: "py_heap \<Rightarrow> nat \<Rightarrow> int \<Rightarrow> state \<Rightarrow> int \<times> state" where
  "PyTraceFunction heap fp what g =
     (let wasLocked = isActive g;
          g1 = g\<lparr>isActive := True\<rparr>
      in if \<not> d_active g1 then (0, g1\<lparr>isActive := wasLocked\<rparr>)
         else if what = PyTrace_CALL then
           (case co_name (heap fp) of
              None \<Rightarrow> (- 1, g1\<lparr>isActive := wasLocked\<rparr>)
            | Some function \<Rightarrow>
                (case co_filename (heap fp) of
                   None \<Rightarrow> (- 1, g1\<lparr>isActive := wasLocked\<rparr>)
                 | Some file \<Rightarrow>
                     (let parent_lineno = getCurrentPythonLineNumber heap g1
                      in (0, (pushPythonFrame (Some fp) function file parent_lineno g1)
                               \<lparr>isActive := wasLocked\<rparr>))))
         else if what = PyTrace_RETURN then (0, (popPythonFrame g1)\<lparr>isActive := wasLocked\<rparr>)
         else (0, g1\<lparr>isActive := wasLocked\<rparr>))"

section \<open>Notions the properties are stated with\<close>

definition stack_of :: "state \<Rightarrow> LazilyEmittedFrame list" where
  "stack_of g = (case d_stack g of None \<Rightarrow> [] | Some xs \<Rightarrow> xs)"

text \<open>Invariant (S1) of the shadow stack: emission is a prefix.\<close>

definition S1 :: "LazilyEmittedFrame list \<Rightarrow> bool" where
  "S1 xs = (\<forall>i < length xs. emitted (xs ! i) \<longrightarrow> (\<forall>j < i. emitted (xs ! j)))"

text \<open>The operations of the stack tracker, as events on one thread.\<close>

datatype stack_op =
    Reset frame_ptr
  | Push frame_ptr string string int
  | Pop
  | FlushPendingPops
  | FlushPendingPushes
  | ResetInChild

fun apply_op :: "stack_op \<Rightarrow> state \<Rightarrow> state" where
  "apply_op (Reset fp) g = reset fp g"
| "apply_op (Push fp function file parent_lineno) g = pushPythonFrame fp function file parent_lineno g"
| "apply_op Pop g = popPythonFrame g"
| "apply_op FlushPendingPops g = emitPendingPops g"
| "apply_op FlushPendingPushes g = emitPendingPushes g"
| "apply_op ResetInChild g = resetInChildProcess g"





fun pop_count :: "record_t \<Rightarrow> nat" where
  "pop_count (FRAME_POP t n) = unat n"
| "pop_count r = 0"

text \<open>A writer that accepts every coming write.\<close>

definition accepts_all :: "RecordWriter \<Rightarrow> bool" where
  "accepts_all w = list_all (\<lambda>b. b) (outcomes w)"

text \<open>States and inputs the properties are exercised on.\<close>

definition fresh_writer :: RecordWriter where
  "fresh_writer = \<lparr>written = [], outcomes = []\<rparr>"

definition idle_state :: state where
  "idle_state =
     \<lparr>thread_id = 7, isActive = False, d_num_pending_pops = 0, d_entry_frame = None,
      d_stack = None, d_active = False, d_writer = fresh_writer,
      d_unwind_native_frames = False, d_memory_interval = 10, d_follow_fork = False,
      d_frames = [], d_native_trace_tree = []\<rparr>"

definition tracking_state :: state where
  "tracking_state = idle_state\<lparr>d_active := True\<rparr>"

definition lef :: "nat \<Rightarrow> string \<Rightarrow> bool \<Rightarrow> LazilyEmittedFrame" where
  "lef a name e =
     \<lparr>frame = Some a,
      raw_frame_record = \<lparr>function_name = name, filename = ''app.py'', lineno = 1\<rparr>,
      emitted = e\<rparr>"

definition demo_heap :: py_heap where
  "demo_heap a =
     (if a = 0 then \<lparr>co_name = None, co_filename = Some ''app.py'', f_lineno = 3\<rparr>
      else \<lparr>co_name = Some ''f'', co_filename = Some ''app.py'', f_lineno = int a * 10\<rparr>)"

fun is_Push :: "stack_op \<Rightarrow> bool" where
  "is_Push (Push fp function file parent_lineno) = True"
| "is_Push op = False"

definition with_stack :: "LazilyEmittedFrame list \<Rightarrow> 32 word \<Rightarrow> frame_ptr \<Rightarrow> state" where
  "with_stack xs n entry =
     tracking_state\<lparr>d_stack := Some xs, d_num_pending_pops := n, d_entry_frame := entry\<rparr>"

definition no_container :: state where
  "no_container = idle_state\<lparr>d_entry_frame := Some 5, d_num_pending_pops := 2\<rparr>"

definition flaky_state :: state where
  "flaky_state =
     tracking_state\<lparr>d_writer := \<lparr>written = [], outcomes = [True, True, True, True, True, False]\<rparr>\<rparr>"

definition three_calls_and_flush :: "stack_op list" where
  "three_calls_and_flush =
     [Push (Some 1) ''f'' ''app.py'' 1, Push (Some 2) ''g'' ''app.py'' 1,
      Push (Some 3) ''h'' ''app.py'' 1, FlushPendingPushes]"

definition refusing_state :: state where
  "refusing_state =
     (with_stack [lef 1 ''f'' True] 300 (Some 5))
       \<lparr>d_writer := \<lparr>written = [], outcomes = [True, False]\<rparr>\<rparr>"

definition busy_state :: state where
  "busy_state =
     (with_stack [lef 1 ''f'' True, lef 2 ''g'' False] 2 (Some 5))\<lparr>d_unwind_native_frames := True\<rparr>"






text \<open>How many records a flush of \<open>n\<close> pops needs, whether the writer refuses one of
  its next \<open>k\<close> writes, and how many writes it accepts before its first refusal.\<close>

definition records_needed :: "nat \<Rightarrow> nat" where
  "records_needed n = (n + 254) div 255"

definition refuses_within :: "nat \<Rightarrow> RecordWriter \<Rightarrow> bool" where
  "refuses_within k w = (\<not> list_all (\<lambda>b. b) (take k (outcomes w)))"

definition accepted_prefix :: "RecordWriter \<Rightarrow> nat" where
  "accepted_prefix w = length (takeWhile (\<lambda>b. b) (outcomes w))"




section \<open>How the tracker's writes change the state\<close>

lemma tracker_write_frame:
  "tracker_write r g = (ok, g') \<Longrightarrow> \<exists>w. g' = g\<lparr>d_writer := w\<rparr>"
  by (auto simp: tracker_write_def split: prod.splits)

lemma tracker_write_written:
  "tracker_write r g = (ok, g') \<Longrightarrow>
     written (d_writer g') = written (d_writer g) @ (if ok then [r] else [])"
  by (auto simp: tracker_write_def writeRecord_def split: prod.splits list.splits if_splits)

lemma tracker_write_accepts:
  "tracker_write r g = (ok, g') \<Longrightarrow> accepts_all (d_writer g) \<Longrightarrow> ok \<and> accepts_all (d_writer g')"
  by (auto simp: tracker_write_def writeRecord_def accepts_all_def split: prod.splits list.splits if_splits)

lemma tracker_write_commute:
  assumes wr: "\<And>g. d_writer (u g) = d_writer g"
    and uw: "\<And>g w. u (g\<lparr>d_writer := w\<rparr>) = (u g)\<lparr>d_writer := w\<rparr>"
  shows "tracker_write r (u g) = (fst (tracker_write r g), u (snd (tracker_write r g)))"
  by (simp add: tracker_write_def wr uw split: prod.splits)

lemma popFrames_frame:
  "popFrames c g = (ok, g') \<Longrightarrow> \<exists>w a. g' = g\<lparr>d_writer := w, d_active := a\<rparr>"
proof (induction c g arbitrary: ok g' rule: popFrames.induct)
  case (1 count g)
  show ?case
  proof (cases "count = 0")
    case True
    with "1.prems" have "g' = g" by (simp add: popFrames.simps)
    then have "g' = g\<lparr>d_writer := d_writer g, d_active := d_active g\<rparr>" by simp
    then show ?thesis by blast
  next
    case False
    obtain ok1 g1 where w: "tracker_write (FRAME_POP (thread_id g) (to_pop_of count)) g = (ok1, g1)"
      by (cases "tracker_write (FRAME_POP (thread_id g) (to_pop_of count)) g")
    from tracker_write_frame [OF w] obtain w1 where g1: "g1 = g\<lparr>d_writer := w1\<rparr>" by blast
    show ?thesis
    proof (cases ok1)
      case True
      with False w "1.prems" have "popFrames (count - ucast (to_pop_of count)) g1 = (ok, g')"
        by (simp add: popFrames.simps [of count g])
      with "1.IH" [OF False refl refl w [symmetric]] True
      obtain w2 a2 where "g' = g1\<lparr>d_writer := w2, d_active := a2\<rparr>" by auto
      with g1 have "g' = g\<lparr>d_writer := w2, d_active := a2\<rparr>" by simp
      then show ?thesis by blast
    next
      case f: False
      with False w "1.prems" have "g' = deactivate g1"
        by (simp add: popFrames.simps [of count g])
      with g1 have "g' = g\<lparr>d_writer := w1, d_active := False\<rparr>" by (simp add: deactivate_def)
      then show ?thesis by blast
    qed
  qed
qed

lemma popFrames_commute:
  assumes tid: "\<And>g. thread_id (u g) = thread_id g"
    and wr: "\<And>g. d_writer (u g) = d_writer g"
    and uw: "\<And>g w. u (g\<lparr>d_writer := w\<rparr>) = (u g)\<lparr>d_writer := w\<rparr>"
    and ud: "\<And>g. u (deactivate g) = deactivate (u g)"
  shows "popFrames c (u g) = (fst (popFrames c g), u (snd (popFrames c g)))"
proof (induction c g rule: popFrames.induct)
  case (1 count g)
  show ?case
  proof (cases "count = 0")
    case True
    then show ?thesis by (simp add: popFrames.simps)
  next
    case False
    obtain ok1 g1 where w: "tracker_write (FRAME_POP (thread_id g) (to_pop_of count)) g = (ok1, g1)"
      by (cases "tracker_write (FRAME_POP (thread_id g) (to_pop_of count)) g")
    then have wu: "tracker_write (FRAME_POP (thread_id (u g)) (to_pop_of count)) (u g) = (ok1, u g1)"
      by (simp add: tracker_write_commute [of u, OF wr uw] tid)
    show ?thesis
    proof (cases ok1)
      case True
      from "1.IH" [OF False refl refl w [symmetric]] True
      have "popFrames (count - ucast (to_pop_of count)) (u g1) =
              (fst (popFrames (count - ucast (to_pop_of count)) g1),
               u (snd (popFrames (count - ucast (to_pop_of count)) g1)))" by simp
      with False w wu True show ?thesis
        by (simp add: popFrames.simps [of count g] popFrames.simps [of count "u g"] Let_def)
    next
      case f: False
      with False w wu show ?thesis
        by (simp add: popFrames.simps [of count g] popFrames.simps [of count "u g"] ud Let_def)
    qed
  qed
qed

lemma emitPendingPops_commute:
  assumes tid: "\<And>g. thread_id (u g) = thread_id g"
    and wr: "\<And>g. d_writer (u g) = d_writer g"
    and uw: "\<And>g w. u (g\<lparr>d_writer := w\<rparr>) = (u g)\<lparr>d_writer := w\<rparr>"
    and ud: "\<And>g. u (deactivate g) = deactivate (u g)"
    and pp: "\<And>g. d_num_pending_pops (u g) = d_num_pending_pops g"
    and up: "\<And>g. u (g\<lparr>d_num_pending_pops := 0\<rparr>) = (u g)\<lparr>d_num_pending_pops := 0\<rparr>"
  shows "emitPendingPops (u g) = u (emitPendingPops g)"
  by (simp add: emitPendingPops_def popFrames_commute [of u, OF tid wr uw ud] pp up split: prod.splits)

lemma emitPendingPops_frame:
  "\<exists>w a. emitPendingPops g = g\<lparr>d_writer := w, d_active := a, d_num_pending_pops := 0\<rparr>"
proof -
  obtain ok g' where p: "popFrames (d_num_pending_pops g) g = (ok, g')"
    by (cases "popFrames (d_num_pending_pops g) g")
  from popFrames_frame [OF p] obtain w a where "g' = g\<lparr>d_writer := w, d_active := a\<rparr>" by blast
  with p have "emitPendingPops g = g\<lparr>d_writer := w, d_active := a, d_num_pending_pops := 0\<rparr>"
    by (simp add: emitPendingPops_def)
  then show ?thesis by blast
qed

lemma popFrames_0: "popFrames 0 g = (True, g)"
  by (simp add: popFrames.simps)

lemma popFrames_step:
  "c \<noteq> 0 \<Longrightarrow> popFrames c g =
     (case tracker_write (FRAME_POP (thread_id g) (to_pop_of c)) g of
        (ok, g') \<Rightarrow> if \<not> ok then (False, deactivate g')
                    else popFrames (c - ucast (to_pop_of c)) g')"
  by (simp add: popFrames.simps [of c g] Let_def)

lemmas fixture_defs = with_stack_def lef_def tracking_state_def idle_state_def fresh_writer_def
  stack_of_def demo_heap_def

lemmas write_defs = tracker_write_def writeRecord_def deactivate_def to_pop_of_def Let_def

section \<open>The allocation path's gates\<close>

text \<open>
  C4. A call of \<^verbatim>\<open>trackAllocationImpl\<close> or \<^verbatim>\<open>trackDeallocationImpl\<close> made while
  the thread's recursion-guard flag is set, or while the global active flag is false,
  returns at once: the whole state is the one it was called in, so no record has been
  written and the shadow stack, the pending-pop counter and the entry frame are untouched.
\<close>

theorem gates_return_immediately:
  "isActive g \<or> \<not> d_active g \<Longrightarrow>
     trackAllocationImpl heap unwound ptr sz func g = g \<and>
     trackDeallocationImpl heap ptr sz func g = g"
  by (simp add: trackAllocationImpl_def trackDeallocationImpl_def)

text \<open>A thread with pops and a push pending, once inside the tracker (the guard's flag
  set) and once with the tracker deactivated.\<close>

theorem gates_return_immediately_witness:
  "(isActive (busy_state\<lparr>isActive := True\<rparr>) \<or> \<not> d_active (busy_state\<lparr>isActive := True\<rparr>)) \<and>
   trackAllocationImpl demo_heap (Some [100, 200]) 170 16 0 (busy_state\<lparr>isActive := True\<rparr>) =
     busy_state\<lparr>isActive := True\<rparr> \<and>
   trackDeallocationImpl demo_heap 170 16 0 (busy_state\<lparr>isActive := True\<rparr>) =
     busy_state\<lparr>isActive := True\<rparr> \<and>
   (isActive (busy_state\<lparr>d_active := False\<rparr>) \<or> \<not> d_active (busy_state\<lparr>d_active := False\<rparr>)) \<and>
   trackAllocationImpl demo_heap (Some [100, 200]) 170 16 0 (busy_state\<lparr>d_active := False\<rparr>) =
     busy_state\<lparr>d_active := False\<rparr> \<and>
   trackDeallocationImpl demo_heap 170 16 0 (busy_state\<lparr>d_active := False\<rparr>) =
     busy_state\<lparr>d_active := False\<rparr>"
proof -
  have h1: "isActive (busy_state\<lparr>isActive := True\<rparr>) \<or> \<not> d_active (busy_state\<lparr>isActive := True\<rparr>)"
    by simp
  have h2: "isActive (busy_state\<lparr>d_active := False\<rparr>) \<or> \<not> d_active (busy_state\<lparr>d_active := False\<rparr>)"
    by simp
  from gates_return_immediately [OF h1] gates_return_immediately [OF h2] h1 h2
  show ?thesis by simp
qed

section \<open>The current line\<close>

text \<open>
  C7. \<^verbatim>\<open>getCurrentPythonLineNumber\<close> returns the source line of the frame on top of
  the shadow stack when the stack is not empty, otherwise the line of the entry frame
  when one is set, otherwise 0. (A frame the hook pushed has a handle that is not null.)
\<close>

theorem current_line_cases:
  "(stack_of g \<noteq> [] \<and> frame (last (stack_of g)) = Some a \<longrightarrow>
      getCurrentPythonLineNumber heap g = f_lineno (heap a)) \<and>
   (stack_of g = [] \<and> d_entry_frame g = Some a \<longrightarrow>
      getCurrentPythonLineNumber heap g = f_lineno (heap a)) \<and>
   (stack_of g = [] \<and> d_entry_frame g = None \<longrightarrow> getCurrentPythonLineNumber heap g = 0)"
  by (simp add: getCurrentPythonLineNumber_def stack_of_def split: option.splits)

text \<open>The three cases: a stack of two frames, an empty stack with an entry frame, and
  neither.\<close>

theorem current_line_cases_witness:
  "stack_of (with_stack [lef 1 ''f'' True, lef 2 ''g'' False] 0 (Some 5)) \<noteq> [] \<and>
   frame (last (stack_of (with_stack [lef 1 ''f'' True, lef 2 ''g'' False] 0 (Some 5)))) = Some 2 \<and>
   getCurrentPythonLineNumber demo_heap (with_stack [lef 1 ''f'' True, lef 2 ''g'' False] 0 (Some 5)) = 20 \<and>
   stack_of (with_stack [] 0 (Some 5)) = [] \<and> d_entry_frame (with_stack [] 0 (Some 5)) = Some 5 \<and>
   getCurrentPythonLineNumber demo_heap (with_stack [] 0 (Some 5)) = 50 \<and>
   stack_of idle_state = [] \<and> d_entry_frame idle_state = None \<and>
   getCurrentPythonLineNumber demo_heap idle_state = 0"
proof -
  have a: "stack_of (with_stack [lef 1 ''f'' True, lef 2 ''g'' False] 0 (Some 5)) \<noteq> [] \<and>
      frame (last (stack_of (with_stack [lef 1 ''f'' True, lef 2 ''g'' False] 0 (Some 5)))) = Some 2"
    by (simp add: with_stack_def stack_of_def lef_def)
  have b: "stack_of (with_stack [] 0 (Some 5)) = [] \<and> d_entry_frame (with_stack [] 0 (Some 5)) = Some 5"
    by (simp add: with_stack_def stack_of_def)
  have c: "stack_of idle_state = [] \<and> d_entry_frame idle_state = None"
    by (simp add: idle_state_def stack_of_def)
  from a b c
    current_line_cases [of "with_stack [lef 1 ''f'' True, lef 2 ''g'' False] 0 (Some 5)" 2 demo_heap]
    current_line_cases [of "with_stack [] 0 (Some 5)" 5 demo_heap]
    current_line_cases [of idle_state 0 demo_heap]
  show ?thesis by (simp add: demo_heap_def)
qed

section \<open>Popping a frame\<close>

text \<open>
  C2. \<^verbatim>\<open>popPythonFrame\<close> on a non-empty shadow stack removes the top frame, adds one
  to the pending-pop counter exactly when that frame was emitted, leaves the entry frame
  alone, and, when the stack has become empty, flushes the pending pops at once (after
  which the counter is zero). On an empty stack, or with no container, it clears the
  entry frame and changes nothing else.
\<close>

theorem pop_behaviour:
  "(stack_of g \<noteq> [] \<longrightarrow>
      (let n' = (if emitted (last (stack_of g)) then d_num_pending_pops g + 1
                 else d_num_pending_pops g);
           g' = g\<lparr>d_num_pending_pops := n', d_stack := Some (butlast (stack_of g))\<rparr>
       in popPythonFrame g = (if butlast (stack_of g) = [] then emitPendingPops g' else g') \<and>
          stack_of (popPythonFrame g) = butlast (stack_of g) \<and>
          d_entry_frame (popPythonFrame g) = d_entry_frame g \<and>
          d_num_pending_pops (popPythonFrame g) = (if butlast (stack_of g) = [] then 0 else n'))) \<and>
   (stack_of g = [] \<longrightarrow> popPythonFrame g = g\<lparr>d_entry_frame := None\<rparr>)"
proof (cases "d_stack g")
  case None
  then show ?thesis by (simp add: popPythonFrame_def stack_of_def)
next
  case (Some xs)
  show ?thesis
  proof (cases "xs = []")
    case True
    with Some show ?thesis by (simp add: popPythonFrame_def stack_of_def)
  next
    case False
    define n' where "n' = (if emitted (last xs) then d_num_pending_pops g + 1 else d_num_pending_pops g)"
    define g' where "g' = g\<lparr>d_num_pending_pops := n', d_stack := Some (butlast xs)\<rparr>"
    have eq: "popPythonFrame g = (if butlast xs = [] then emitPendingPops g' else g')"
      using Some False by (simp add: popPythonFrame_def g'_def n'_def Let_def)
    obtain w a where e: "emitPendingPops g' = g'\<lparr>d_writer := w, d_active := a, d_num_pending_pops := 0\<rparr>"
      using emitPendingPops_frame [of g'] by blast
    have ef: "d_stack (emitPendingPops g') = d_stack g'"
      "d_entry_frame (emitPendingPops g') = d_entry_frame g'"
      "d_num_pending_pops (emitPendingPops g') = 0"
      by (simp_all add: e)
    have gf: "d_stack g' = Some (butlast xs)" "d_entry_frame g' = d_entry_frame g"
      "d_num_pending_pops g' = n'"
      by (simp_all add: g'_def)
    have "stack_of (popPythonFrame g) = butlast xs"
      by (simp add: eq stack_of_def ef gf)
    moreover have "d_entry_frame (popPythonFrame g) = d_entry_frame g"
      by (simp add: eq ef gf)
    moreover have "d_num_pending_pops (popPythonFrame g) = (if butlast xs = [] then 0 else n')"
      by (simp add: eq ef gf)
    moreover have "stack_of g = xs" using Some by (simp add: stack_of_def)
    ultimately show ?thesis using False eq
      unfolding Let_def g'_def n'_def by simp
  qed
qed

text \<open>Popping an emitted top frame, an unemitted one, the last frame of the stack (the
  300 pending pops go out as 255 and 45), and popping with an empty stack.\<close>

theorem pop_behaviour_witness:
  "stack_of (with_stack [lef 1 ''f'' True, lef 2 ''g'' True] 3 (Some 5)) \<noteq> [] \<and>
   popPythonFrame (with_stack [lef 1 ''f'' True, lef 2 ''g'' True] 3 (Some 5)) =
     with_stack [lef 1 ''f'' True] 4 (Some 5) \<and>
   stack_of (with_stack [lef 1 ''f'' True, lef 2 ''g'' False] 3 (Some 5)) \<noteq> [] \<and>
   popPythonFrame (with_stack [lef 1 ''f'' True, lef 2 ''g'' False] 3 (Some 5)) =
     with_stack [lef 1 ''f'' True] 3 (Some 5) \<and>
   stack_of (with_stack [lef 1 ''f'' True] 299 (Some 5)) \<noteq> [] \<and>
   popPythonFrame (with_stack [lef 1 ''f'' True] 299 (Some 5)) =
     (with_stack [] 0 (Some 5))
       \<lparr>d_writer := \<lparr>written = [FRAME_POP 7 255, FRAME_POP 7 45], outcomes = []\<rparr>\<rparr> \<and>
   stack_of (with_stack [] 3 (Some 5)) = [] \<and>
   popPythonFrame (with_stack [] 3 (Some 5)) = with_stack [] 3 None"
proof -
  have a: "stack_of (with_stack [lef 1 ''f'' True, lef 2 ''g'' True] 3 (Some 5)) \<noteq> []"
    and b: "stack_of (with_stack [lef 1 ''f'' True, lef 2 ''g'' False] 3 (Some 5)) \<noteq> []"
    and c: "stack_of (with_stack [lef 1 ''f'' True] 299 (Some 5)) \<noteq> []"
    and d: "stack_of (with_stack [] 3 (Some 5)) = []"
    by (simp_all add: fixture_defs)
  have "popPythonFrame (with_stack [lef 1 ''f'' True, lef 2 ''g'' True] 3 (Some 5)) =
          with_stack [lef 1 ''f'' True] 4 (Some 5)"
    using a pop_behaviour [of "with_stack [lef 1 ''f'' True, lef 2 ''g'' True] 3 (Some 5)"]
    by (simp add: fixture_defs Let_def)
  moreover have "popPythonFrame (with_stack [lef 1 ''f'' True, lef 2 ''g'' False] 3 (Some 5)) =
          with_stack [lef 1 ''f'' True] 3 (Some 5)"
    using b pop_behaviour [of "with_stack [lef 1 ''f'' True, lef 2 ''g'' False] 3 (Some 5)"]
    by (simp add: fixture_defs Let_def)
  moreover have "popPythonFrame (with_stack [lef 1 ''f'' True] 299 (Some 5)) =
     (with_stack [] 0 (Some 5))
       \<lparr>d_writer := \<lparr>written = [FRAME_POP 7 255, FRAME_POP 7 45], outcomes = []\<rparr>\<rparr>"
    using c pop_behaviour [of "with_stack [lef 1 ''f'' True] 299 (Some 5)"]
    by (simp add: fixture_defs write_defs emitPendingPops_def popFrames_0 popFrames_step)
  moreover have "popPythonFrame (with_stack [] 3 (Some 5)) = with_stack [] 3 None"
    using d pop_behaviour [of "with_stack [] 3 (Some 5)"]
    by (simp add: fixture_defs)
  ultimately show ?thesis using a b c d by simp
qed

section \<open>Resetting the stack tracker\<close>

lemma emitPendingPops_reset: "emitPendingPops (reset fp g) = reset fp (emitPendingPops g)"
  by (rule emitPendingPops_commute)
     (simp_all add: reset_def deactivate_def Let_def split: option.splits)

text \<open>
  C10. \<^verbatim>\<open>reset\<close> sets the entry frame and clears the shadow stack when its container
  exists, and leaves the pending-pop counter (and the writer) as they were: the flush that
  follows a reset writes the records the flush would have written without the reset, so
  the pops pending at the reset still go out as FRAME\_POP records although the frames
  they refer to are gone.
\<close>

theorem reset_keeps_pending_pops:
  "d_num_pending_pops (reset fp g) = d_num_pending_pops g \<and>
   d_entry_frame (reset fp g) = fp \<and>
   d_stack (reset fp g) = (case d_stack g of None \<Rightarrow> None | Some xs \<Rightarrow> Some []) \<and>
   d_writer (reset fp g) = d_writer g \<and>
   emitPendingPops (reset fp g) = reset fp (emitPendingPops g) \<and>
   d_writer (emitPendingPops (reset fp g)) = d_writer (emitPendingPops g)"
proof -
  have "d_writer (reset fp (emitPendingPops g)) = d_writer (emitPendingPops g)"
    by (simp add: reset_def Let_def split: option.splits)
  then show ?thesis
    by (simp add: emitPendingPops_reset) (simp add: reset_def Let_def split: option.splits)
qed

text \<open>Two emitted frames on the stack and two pops pending: after the reset the stack is
  empty, the counter is still 2, and the next flush writes a FRAME\_POP of 2.\<close>

theorem reset_keeps_pending_pops_witness:
  "reset None (with_stack [lef 1 ''f'' True, lef 2 ''g'' True] 2 (Some 5)) = with_stack [] 2 None \<and>
   emitPendingPops (reset None (with_stack [lef 1 ''f'' True, lef 2 ''g'' True] 2 (Some 5))) =
     (with_stack [] 0 None)\<lparr>d_writer := \<lparr>written = [FRAME_POP 7 2], outcomes = []\<rparr>\<rparr>"
proof -
  have "emitPendingPops (with_stack [lef 1 ''f'' True, lef 2 ''g'' True] 2 (Some 5)) =
     (with_stack [lef 1 ''f'' True, lef 2 ''g'' True] 0 (Some 5))
        \<lparr>d_writer := \<lparr>written = [FRAME_POP 7 2], outcomes = []\<rparr>\<rparr>"
    by (simp add: fixture_defs write_defs emitPendingPops_def popFrames_0 popFrames_step)
  with reset_keeps_pending_pops [of None "with_stack [lef 1 ''f'' True, lef 2 ''g'' True] 2 (Some 5)"]
  show ?thesis by (simp add: reset_def fixture_defs)
qed

section \<open>The container pointer\<close>

lemma emitPendingPops_stack_upd:
  "emitPendingPops (g\<lparr>d_stack := s\<rparr>) = (emitPendingPops g)\<lparr>d_stack := s\<rparr>"
  by (rule emitPendingPops_commute [of "\<lambda>g. g\<lparr>d_stack := s\<rparr>"]) (simp_all add: deactivate_def)

lemma emitPendingPops_d_stack: "d_stack (emitPendingPops g) = d_stack g"
proof -
  obtain w a where "emitPendingPops g = g\<lparr>d_writer := w, d_active := a, d_num_pending_pops := 0\<rparr>"
    using emitPendingPops_frame [of g] by blast
  then show ?thesis by simp
qed

text \<open>
  C8. When the container pointer \<open>d_stack\<close> is null, every operation of the stack
  tracker other than the push leaves it null and does what it does on an empty stack: its
  result on the state with an empty container is its result on the state without one,
  but for the pointer. Reading the current line gives the same line in both. The push
  creates the container.
\<close>

theorem null_container_stays_null:
  assumes "d_stack g = None"
  shows "(\<not> is_Push op \<longrightarrow>
            d_stack (apply_op op g) = None \<and>
            apply_op op (g\<lparr>d_stack := Some []\<rparr>) = (apply_op op g)\<lparr>d_stack := Some []\<rparr>) \<and>
         getCurrentPythonLineNumber heap g = getCurrentPythonLineNumber heap (g\<lparr>d_stack := Some []\<rparr>) \<and>
         d_stack (pushPythonFrame fp function file parent_lineno g) \<noteq> None"
proof -
  have "\<not> is_Push op \<Longrightarrow> d_stack (apply_op op g) = None \<and>
            apply_op op (g\<lparr>d_stack := Some []\<rparr>) = (apply_op op g)\<lparr>d_stack := Some []\<rparr>"
  proof (cases op)
    case (Reset x)
    with assms show ?thesis by (simp add: reset_def Let_def)
  next
    case (Push a b c d)
    assume "\<not> is_Push op"
    with Push show ?thesis by simp
  next
    case Pop
    with assms show ?thesis by (simp add: popPythonFrame_def)
  next
    case FlushPendingPops
    with assms show ?thesis by (simp add: emitPendingPops_stack_upd emitPendingPops_d_stack)
  next
    case FlushPendingPushes
    with assms show ?thesis by (simp add: emitPendingPushes_def pending_part_def emitted_part_def)
  next
    case ResetInChild
    with assms show ?thesis by (simp add: resetInChildProcess_def Let_def)
  qed
  moreover have "getCurrentPythonLineNumber heap g = getCurrentPythonLineNumber heap (g\<lparr>d_stack := Some []\<rparr>)"
    using assms by (simp add: getCurrentPythonLineNumber_def)
  moreover have "d_stack (pushPythonFrame fp function file parent_lineno g) \<noteq> None"
    by (simp add: pushPythonFrame_def Let_def)
  ultimately show ?thesis by blast
qed

text \<open>A thread without a container, with an entry frame and two pops pending, under
  each of the operations.\<close>

theorem null_container_stays_null_witness:
  "d_stack no_container = None \<and>
   list_all (\<lambda>op. \<not> is_Push op \<and> d_stack (apply_op op no_container) = None \<and>
                  apply_op op (no_container\<lparr>d_stack := Some []\<rparr>) =
                    (apply_op op no_container)\<lparr>d_stack := Some []\<rparr>)
     [Reset (Some 3), Pop, FlushPendingPops, FlushPendingPushes, ResetInChild] \<and>
   getCurrentPythonLineNumber demo_heap (no_container\<lparr>d_stack := Some []\<rparr>) = 50 \<and>
   getCurrentPythonLineNumber demo_heap no_container = 50 \<and>
   d_stack (pushPythonFrame (Some 1) ''f'' ''app.py'' 50 no_container) \<noteq> None"
proof -
  have h: "d_stack no_container = None" by (simp add: no_container_def idle_state_def)
  have l: "getCurrentPythonLineNumber demo_heap no_container = 50"
    by (simp add: getCurrentPythonLineNumber_def no_container_def idle_state_def demo_heap_def)
  from h l
    null_container_stays_null [OF h, of "Reset (Some 3)" demo_heap "Some 1" "''f''" "''app.py''" 50]
    null_container_stays_null [OF h, of Pop demo_heap "Some 1" "''f''" "''app.py''" 50]
    null_container_stays_null [OF h, of FlushPendingPops demo_heap "Some 1" "''f''" "''app.py''" 50]
    null_container_stays_null [OF h, of FlushPendingPushes demo_heap "Some 1" "''f''" "''app.py''" 50]
    null_container_stays_null [OF h, of ResetInChild demo_heap "Some 1" "''f''" "''app.py''" 50]
  show ?thesis by simp
qed

section \<open>Emission is a prefix of the shadow stack\<close>

lemma parts_append: "emitted_part xs @ pending_part xs = xs"
proof -
  have "rev (takeWhile (\<lambda>f. \<not> emitted f) (rev xs) @ dropWhile (\<lambda>f. \<not> emitted f) (rev xs)) = xs"
    by simp
  then show ?thesis by (simp add: emitted_part_def pending_part_def del: takeWhile_dropWhile_id)
qed

lemma pending_part_unemitted: "f \<in> set (pending_part xs) \<Longrightarrow> \<not> emitted f"
  by (auto simp: pending_part_def dest: set_takeWhileD)

lemma emitted_part_last: "emitted_part xs \<noteq> [] \<Longrightarrow> emitted (last (emitted_part xs))"
proof -
  assume ne: "emitted_part xs \<noteq> []"
  then have d: "dropWhile (\<lambda>f. \<not> emitted f) (rev xs) \<noteq> []" by (simp add: emitted_part_def)
  then have "\<not> \<not> emitted (hd (dropWhile (\<lambda>f. \<not> emitted f) (rev xs)))" by (rule hd_dropWhile)
  then show ?thesis by (simp add: emitted_part_def last_rev)
qed

lemma S1_emitted_part:
  assumes "S1 xs" and "f \<in> set (emitted_part xs)"
  shows "emitted f"
proof -
  let ?A = "emitted_part xs"
  from assms(2) obtain j where j: "j < length ?A" "?A ! j = f" by (auto simp: in_set_conv_nth)
  then have ne: "?A \<noteq> []" by auto
  have xs: "xs = ?A @ pending_part xs" by (simp add: parts_append)
  have len: "length ?A \<le> length xs" by (subst (2) xs) simp
  have nth: "\<And>i. i < length ?A \<Longrightarrow> xs ! i = ?A ! i" by (subst xs) (simp add: nth_append)
  from ne have "emitted (?A ! (length ?A - 1))"
    using emitted_part_last [OF ne] by (simp add: last_conv_nth)
  with ne nth [of "length ?A - 1"] have top: "emitted (xs ! (length ?A - 1))" by simp
  show ?thesis
  proof (cases "j = length ?A - 1")
    case True
    with top nth [of j] j show ?thesis by simp
  next
    case False
    with j have lt: "j < length ?A - 1" by simp
    from ne len have "length ?A - 1 < length xs" by (cases ?A) auto
    with assms(1) top lt have "emitted (xs ! j)" by (simp add: S1_def)
    with nth [of j] j show ?thesis by simp
  qed
qed

lemma S1_append:
  assumes "\<And>f. f \<in> set A \<Longrightarrow> emitted f" and "\<And>f. f \<in> set C \<Longrightarrow> \<not> emitted f"
  shows "S1 (A @ C)"
  unfolding S1_def
proof (intro allI impI)
  fix i j
  assume i: "i < length (A @ C)" and e: "emitted ((A @ C) ! i)" and ji: "j < i"
  have "i < length A"
  proof (rule ccontr)
    assume "\<not> i < length A"
    with i have "(A @ C) ! i \<in> set C" by (simp add: nth_append)
    with assms(2) e show False by blast
  qed
  with ji have "(A @ C) ! j \<in> set A" by (simp add: nth_append)
  with assms(1) show "emitted ((A @ C) ! j)" by blast
qed

lemma push_loop_shape:
  "push_loop fs g = (ys, g') \<Longrightarrow>
     \<exists>m \<le> length fs. ys = map (\<lambda>f. f\<lparr>emitted := True\<rparr>) (take m fs) @ drop m fs"
proof (induction fs arbitrary: g ys g')
  case Nil
  then show ?case by simp
next
  case (Cons f fs)
  obtain ok g1 where p: "pushFrame (raw_frame_record f) g = (ok, g1)"
    by (cases "pushFrame (raw_frame_record f) g")
  show ?case
  proof (cases ok)
    case False
    with p Cons.prems have "ys = f # fs" by simp
    then have "ys = map (\<lambda>f. f\<lparr>emitted := True\<rparr>) (take 0 (f # fs)) @ drop 0 (f # fs)" by simp
    then show ?thesis by blast
  next
    case True
    obtain fs' g2 where l: "push_loop fs g1 = (fs', g2)" by (cases "push_loop fs g1")
    from Cons.IH [OF l] obtain m where m: "m \<le> length fs"
      "fs' = map (\<lambda>f. f\<lparr>emitted := True\<rparr>) (take m fs) @ drop m fs" by blast
    from True p l Cons.prems have "ys = f\<lparr>emitted := True\<rparr> # fs'" by simp
    with m have "Suc m \<le> length (f # fs) \<and>
        ys = map (\<lambda>f. f\<lparr>emitted := True\<rparr>) (take (Suc m) (f # fs)) @ drop (Suc m) (f # fs)" by simp
    then show ?thesis by blast
  qed
qed

lemma S1_emitPendingPushes:
  assumes "S1 (stack_of g)"
  shows "S1 (stack_of (emitPendingPushes g))"
proof (cases "d_stack g")
  case None
  with assms show ?thesis by (simp add: emitPendingPushes_def)
next
  case (Some xs)
  with assms have s1: "S1 xs" by (simp add: stack_of_def)
  obtain ys g1 where l: "push_loop (pending_part xs) g = (ys, g1)"
    by (cases "push_loop (pending_part xs) g")
  from push_loop_shape [OF l] obtain m where
    ys: "ys = map (\<lambda>f. f\<lparr>emitted := True\<rparr>) (take m (pending_part xs)) @ drop m (pending_part xs)"
    by blast
  let ?A = "emitted_part xs @ map (\<lambda>f. f\<lparr>emitted := True\<rparr>) (take m (pending_part xs))"
  have "S1 (?A @ drop m (pending_part xs))"
  proof (rule S1_append)
    fix f assume "f \<in> set ?A"
    then show "emitted f" using S1_emitted_part [OF s1] by auto
  next
    fix f assume "f \<in> set (drop m (pending_part xs))"
    then have "f \<in> set (pending_part xs)" by (rule in_set_dropD)
    then show "\<not> emitted f" by (rule pending_part_unemitted)
  qed
  with Some l ys show ?thesis by (simp add: emitPendingPushes_def stack_of_def)
qed

lemma popPythonFrame_stack: "stack_of (popPythonFrame g) = butlast (stack_of g)"
proof (cases "d_stack g")
  case None
  then show ?thesis by (simp add: popPythonFrame_def stack_of_def)
next
  case (Some xs)
  then show ?thesis
    by (cases "xs = []")
       (simp_all add: popPythonFrame_def stack_of_def emitPendingPops_d_stack Let_def)
qed

lemma S1_apply_op: "S1 (stack_of g) \<Longrightarrow> S1 (stack_of (apply_op op g))"
proof (cases op)
  case (Reset fp)
  then show ?thesis by (simp add: reset_def stack_of_def S1_def Let_def split: option.splits)
next
  case (Push fp fn fl ln)
  assume s: "S1 (stack_of g)"
  have "S1 (stack_of g @ [\<lparr>frame = fp,
              raw_frame_record = \<lparr>function_name = fn, filename = fl, lineno = ln\<rparr>,
              emitted = False\<rparr>])"
    unfolding S1_def
  proof (intro allI impI)
    fix i j
    let ?n = "\<lparr>frame = fp, raw_frame_record = \<lparr>function_name = fn, filename = fl, lineno = ln\<rparr>,
              emitted = False\<rparr>"
    assume i: "i < length (stack_of g @ [?n])" and e: "emitted ((stack_of g @ [?n]) ! i)" and ji: "j < i"
    have il: "i < length (stack_of g)"
    proof (rule ccontr)
      assume "\<not> i < length (stack_of g)"
      with i have "i = length (stack_of g)" by simp
      with e show False by simp
    qed
    with e have "emitted (stack_of g ! i)" by (simp add: nth_append)
    with s il ji have "emitted (stack_of g ! j)" by (simp add: S1_def)
    with il ji show "emitted ((stack_of g @ [?n]) ! j)" by (simp add: nth_append)
  qed
  with Push show ?thesis by (simp add: pushPythonFrame_def stack_of_def Let_def split: option.splits)
next
  case Pop
  assume s: "S1 (stack_of g)"
  have b: "S1 (butlast (stack_of g))"
    unfolding S1_def
  proof (intro allI impI)
    fix i j
    assume i: "i < length (butlast (stack_of g))" and e: "emitted (butlast (stack_of g) ! i)" and ji: "j < i"
    from i e have "emitted (stack_of g ! i)" by (simp add: nth_butlast)
    moreover from i have "i < length (stack_of g)" by simp
    ultimately have "emitted (stack_of g ! j)" using s ji by (simp add: S1_def)
    with i ji show "emitted (butlast (stack_of g) ! j)" by (simp add: nth_butlast)
  qed
  with Pop show ?thesis by (simp add: popPythonFrame_stack)
next
  case FlushPendingPops
  assume "S1 (stack_of g)"
  with FlushPendingPops show ?thesis by (simp add: stack_of_def emitPendingPops_d_stack)
next
  case FlushPendingPushes
  assume "S1 (stack_of g)"
  with FlushPendingPushes show ?thesis by (simp add: S1_emitPendingPushes)
next
  case ResetInChild
  then show ?thesis by (simp add: resetInChildProcess_def stack_of_def S1_def Let_def split: option.splits)
qed

text \<open>
  C3. Invariant (S1): whenever a frame of the shadow stack is marked emitted, so is every
  frame below it. Each operation of the stack tracker (reset, push, pop, the two flushes,
  reset in the child) keeps it, whatever the writer answers; so it holds after every
  operation of any run that starts in a state where it holds, such as a thread with no
  frames. A push record refused in the middle of \<^verbatim>\<open>emitPendingPushes\<close> stops the loop
  there, and the frames from that one on stay unemitted.
\<close>

theorem S1_invariant: "S1 (stack_of g) \<Longrightarrow> S1 (stack_of (fold apply_op ops g))"
proof (induction ops arbitrary: g)
  case Nil
  then show ?case by simp
next
  case (Cons op ops)
  from Cons.prems have "S1 (stack_of (apply_op op g))" by (rule S1_apply_op)
  then have "S1 (stack_of (fold apply_op ops (apply_op op g)))" by (rule Cons.IH)
  then show ?case by simp
qed

lemmas push_defs = pushPythonFrame_def emitPendingPushes_def pending_part_def emitted_part_def
  pushFrame_def registerFrame_def getIndex_def

lemma flaky_run:
  "fold apply_op three_calls_and_flush flaky_state =
     flaky_state
       \<lparr>d_stack := Some [lef 1 ''f'' True, lef 2 ''g'' True, lef 3 ''h'' False],
         d_active := False,
         d_frames := [raw_frame_record (lef 1 ''f'' True), raw_frame_record (lef 2 ''g'' True),
                      raw_frame_record (lef 3 ''h'' True)],
         d_writer :=
           \<lparr>written = [FRAME_INDEX 0 (raw_frame_record (lef 1 ''f'' True)), FRAME_PUSH 0 7,
                       FRAME_INDEX 1 (raw_frame_record (lef 2 ''g'' True)), FRAME_PUSH 1 7,
                       FRAME_INDEX 2 (raw_frame_record (lef 3 ''h'' True))],
            outcomes = []\<rparr>\<rparr>"
  by (simp add: three_calls_and_flush_def flaky_state_def fixture_defs push_defs write_defs)

text \<open>Three calls and a flush on a writer that refuses the sixth record, the
  FRAME\_PUSH of the third frame: the first two frames are emitted, the third is not.\<close>

theorem S1_invariant_witness:
  "S1 (stack_of flaky_state) \<and>
   map emitted (stack_of (fold apply_op three_calls_and_flush flaky_state)) = [True, True, False] \<and>
   S1 (stack_of (fold apply_op three_calls_and_flush flaky_state))"
proof -
  have h: "S1 (stack_of flaky_state)" by (simp add: flaky_state_def fixture_defs S1_def)
  have "map emitted (stack_of (fold apply_op three_calls_and_flush flaky_state)) = [True, True, False]"
    by (simp add: flaky_run) (simp add: stack_of_def lef_def)
  with h S1_invariant [OF h, of three_calls_and_flush] show ?thesis by simp
qed

section \<open>Flushing the pending pops\<close>

lemma to_pop_of_unat: "unat (to_pop_of c) = min (unat c) 255"
proof (cases "255 < c")
  case True
  then have "255 < unat c" by (simp add: word_less_nat_alt)
  with True show ?thesis by (simp add: to_pop_of_def)
next
  case False
  then have "c \<le> 255" by simp
  then have le: "unat c \<le> 255" by (simp add: word_le_nat_alt)
  then have "unat c < 2 ^ 8" by simp
  then have "unat (ucast c :: 8 word) = unat c"
    by (simp add: unsigned_ucast_eq unsigned_take_bit_eq take_bit_nat_eq_self_iff)
  with False le show ?thesis by (simp add: to_pop_of_def)
qed

lemma rest_unat: "unat (c - ucast (to_pop_of c)) = unat c - min (unat c) 255"
proof -
  have u: "unat (ucast (to_pop_of c) :: 32 word) = min (unat c) 255"
    by (simp add: unsigned_ucast_eq unsigned_take_bit_eq take_bit_nat_eq_self_iff to_pop_of_unat)
  then have "unat (ucast (to_pop_of c) :: 32 word) \<le> unat c" by simp
  then have "(ucast (to_pop_of c) :: 32 word) \<le> c" by (simp add: word_le_nat_alt)
  then have "unat (c - ucast (to_pop_of c)) = unat c - unat (ucast (to_pop_of c) :: 32 word)"
    by (rule unat_sub)
  with u show ?thesis by simp
qed

lemma tracker_write_thread_id: "tracker_write r g = (ok, g') \<Longrightarrow> thread_id g' = thread_id g"
  by (auto simp: tracker_write_def split: prod.splits)

lemma popFrames_written:
  "popFrames c g = (ok, g') \<Longrightarrow>
     \<exists>ns. written (d_writer g') = written (d_writer g) @ map (FRAME_POP (thread_id g)) ns \<and>
          list_all (\<lambda>n. 0 < unat n \<and> unat n \<le> 255) ns \<and>
          (ok \<longrightarrow> sum_list (map unat ns) = unat c) \<and>
          (\<not> ok \<longrightarrow> sum_list (map unat ns) < unat c \<and> \<not> d_active g') \<and>
          (accepts_all (d_writer g) \<longrightarrow> ok)"
proof (induction c g arbitrary: ok g' rule: popFrames.induct)
  case (1 count g)
  show ?case
  proof (cases "count = 0")
    case True
    with "1.prems" have "g' = g" "ok" by (simp_all add: popFrames_0)
    with True have "written (d_writer g') = written (d_writer g) @ map (FRAME_POP (thread_id g)) [] \<and>
          list_all (\<lambda>n. 0 < unat n \<and> unat n \<le> 255) ([] :: 8 word list) \<and>
          (ok \<longrightarrow> sum_list (map unat ([] :: 8 word list)) = unat count) \<and>
          (\<not> ok \<longrightarrow> sum_list (map unat ([] :: 8 word list)) < unat count \<and> \<not> d_active g') \<and>
          (accepts_all (d_writer g) \<longrightarrow> ok)" by simp
    then show ?thesis by blast
  next
    case False
    let ?tp = "to_pop_of count"
    obtain ok1 g1 where w: "tracker_write (FRAME_POP (thread_id g) ?tp) g = (ok1, g1)"
      by (cases "tracker_write (FRAME_POP (thread_id g) ?tp) g")
    note wr = tracker_write_written [OF w]
    from False have pos: "0 < unat count" by (simp add: unat_gt_0)
    then have tp: "0 < unat ?tp" "unat ?tp \<le> 255" "unat ?tp \<le> unat count"
      by (simp_all add: to_pop_of_unat)
    show ?thesis
    proof (cases ok1)
      case True
      with False w "1.prems" have r: "popFrames (count - ucast ?tp) g1 = (ok, g')"
        by (simp add: popFrames_step)
      from "1.IH" [OF False refl refl w [symmetric] _ r] True
      obtain ns where ns: "written (d_writer g') = written (d_writer g1) @ map (FRAME_POP (thread_id g1)) ns"
        "list_all (\<lambda>n. 0 < unat n \<and> unat n \<le> 255) ns"
        "ok \<longrightarrow> sum_list (map unat ns) = unat (count - ucast ?tp)"
        "\<not> ok \<longrightarrow> sum_list (map unat ns) < unat (count - ucast ?tp) \<and> \<not> d_active g'"
        "accepts_all (d_writer g1) \<longrightarrow> ok" by auto
      have rest: "unat (count - ucast ?tp) = unat count - unat ?tp"
        by (simp add: rest_unat to_pop_of_unat)
      have "written (d_writer g') = written (d_writer g) @ map (FRAME_POP (thread_id g)) (?tp # ns)"
        using ns(1) wr True tracker_write_thread_id [OF w] by simp
      moreover have "list_all (\<lambda>n. 0 < unat n \<and> unat n \<le> 255) (?tp # ns)"
        using ns(2) tp by simp
      moreover have "ok \<longrightarrow> sum_list (map unat (?tp # ns)) = unat count"
        using ns(3) rest tp by simp
      moreover have "\<not> ok \<longrightarrow> sum_list (map unat (?tp # ns)) < unat count \<and> \<not> d_active g'"
        using ns(4) rest tp by auto
      moreover have "accepts_all (d_writer g) \<longrightarrow> ok"
        using ns(5) tracker_write_accepts [OF w] by blast
      ultimately show ?thesis by blast
    next
      case f: False
      with False w "1.prems" have r: "g' = deactivate g1" "\<not> ok"
        by (simp_all add: popFrames_step)
      have "written (d_writer g') = written (d_writer g) @ map (FRAME_POP (thread_id g)) []"
        using r wr f by (simp add: deactivate_def)
      moreover have "\<not> d_active g'" using r by (simp add: deactivate_def)
      moreover have "\<not> accepts_all (d_writer g)" using tracker_write_accepts [OF w] f by blast
      ultimately have "written (d_writer g') = written (d_writer g) @ map (FRAME_POP (thread_id g)) [] \<and>
          list_all (\<lambda>n. 0 < unat n \<and> unat n \<le> 255) ([] :: 8 word list) \<and>
          (ok \<longrightarrow> sum_list (map unat ([] :: 8 word list)) = unat count) \<and>
          (\<not> ok \<longrightarrow> sum_list (map unat ([] :: 8 word list)) < unat count \<and> \<not> d_active g') \<and>
          (accepts_all (d_writer g) \<longrightarrow> ok)" using r pos by simp
      then show ?thesis by blast
    qed
  qed
qed

lemma records_needed_0: "records_needed 0 = 0"
  by (simp add: records_needed_def)

lemma records_needed_step: "0 < n \<Longrightarrow> records_needed n = Suc (records_needed (n - min n 255))"
proof (cases "n \<le> 255")
  case True
  assume "0 < n"
  with True have "(n + 254) div 255 = 1" by simp
  with True show ?thesis by (simp add: records_needed_def min_def)
next
  case False
  then have "n + 254 = (n - 255 + 254) + 255" by simp
  then have "(n + 254) div 255 = Suc ((n - 255 + 254) div 255)" by (simp only: div_add_self2)
  with False show ?thesis by (simp add: records_needed_def min_def)
qed

lemma tracker_write_outcomes:
  "tracker_write r g = (ok, g') \<Longrightarrow>
     (outcomes (d_writer g) = [] \<longrightarrow> ok \<and> outcomes (d_writer g') = []) \<and>
     (\<forall>b bs. outcomes (d_writer g) = b # bs \<longrightarrow> ok = b \<and> outcomes (d_writer g') = bs)"
  by (auto simp: tracker_write_def writeRecord_def split: prod.splits list.splits if_splits)

lemma tracker_write_d_active: "tracker_write r g = (ok, g') \<Longrightarrow> d_active g' = d_active g"
  by (auto simp: tracker_write_def split: prod.splits)

lemma popFrames_refusal:
  "popFrames c g = (ok, g') \<Longrightarrow>
     \<exists>ns. written (d_writer g') = written (d_writer g) @ map (FRAME_POP (thread_id g)) ns \<and>
          ok = (\<not> refuses_within (records_needed (unat c)) (d_writer g)) \<and>
          length ns = (if ok then records_needed (unat c) else accepted_prefix (d_writer g)) \<and>
          (ok \<longrightarrow> d_active g' = d_active g)"
proof (induction c g arbitrary: ok g' rule: popFrames.induct)
  case (1 count g)
  show ?case
  proof (cases "count = 0")
    case True
    with "1.prems" have "g' = g" "ok" by (simp_all add: popFrames_0)
    with True have "written (d_writer g') = written (d_writer g) @ map (FRAME_POP (thread_id g)) [] \<and>
          ok = (\<not> refuses_within (records_needed (unat count)) (d_writer g)) \<and>
          length ([] :: 8 word list) =
            (if ok then records_needed (unat count) else accepted_prefix (d_writer g)) \<and>
          (ok \<longrightarrow> d_active g' = d_active g)"
      by (simp add: records_needed_0 refuses_within_def)
    then show ?thesis by blast
  next
    case False
    let ?tp = "to_pop_of count"
    let ?k = "records_needed (unat (count - ucast ?tp))"
    obtain ok1 g1 where w: "tracker_write (FRAME_POP (thread_id g) ?tp) g = (ok1, g1)"
      by (cases "tracker_write (FRAME_POP (thread_id g) ?tp) g")
    note wr = tracker_write_written [OF w]
    note wo = tracker_write_outcomes [OF w]
    from False have pos: "0 < unat count" by (simp add: unat_gt_0)
    have k: "records_needed (unat count) = Suc ?k"
      using records_needed_step [OF pos] by (simp add: rest_unat)
    show ?thesis
    proof (cases ok1)
      case True
      with False w "1.prems" have r: "popFrames (count - ucast ?tp) g1 = (ok, g')"
        by (simp add: popFrames_step)
      from "1.IH" [OF False refl refl w [symmetric] _ r] True
      obtain ns where ns: "written (d_writer g') = written (d_writer g1) @ map (FRAME_POP (thread_id g1)) ns"
        "ok = (\<not> refuses_within ?k (d_writer g1))"
        "length ns = (if ok then ?k else accepted_prefix (d_writer g1))"
        "ok \<longrightarrow> d_active g' = d_active g1" by auto
      have rel: "refuses_within (Suc ?k) (d_writer g) = refuses_within ?k (d_writer g1) \<and>
                 (refuses_within ?k (d_writer g1) \<longrightarrow>
                    accepted_prefix (d_writer g) = Suc (accepted_prefix (d_writer g1)))"
      proof (cases "outcomes (d_writer g)")
        case Nil
        with wo show ?thesis by (simp add: refuses_within_def)
      next
        case (Cons b bs)
        with wo True show ?thesis by (simp add: refuses_within_def accepted_prefix_def)
      qed
      have "written (d_writer g') = written (d_writer g) @ map (FRAME_POP (thread_id g)) (?tp # ns)"
        using ns(1) wr True tracker_write_thread_id [OF w] by simp
      moreover have "ok = (\<not> refuses_within (records_needed (unat count)) (d_writer g))"
        using ns(2) rel k by simp
      moreover have "length (?tp # ns) =
          (if ok then records_needed (unat count) else accepted_prefix (d_writer g))"
        using ns(2,3) rel k by simp
      moreover have "ok \<longrightarrow> d_active g' = d_active g"
        using ns(4) tracker_write_d_active [OF w] by simp
      ultimately show ?thesis by blast
    next
      case f: False
      with False w "1.prems" have r: "g' = deactivate g1" "\<not> ok"
        by (simp_all add: popFrames_step)
      from wo f obtain bs where o: "outcomes (d_writer g) = False # bs"
        by (cases "outcomes (d_writer g)") auto
      have "written (d_writer g') = written (d_writer g) @ map (FRAME_POP (thread_id g)) []"
        using r wr f by (simp add: deactivate_def)
      moreover have "refuses_within (records_needed (unat count)) (d_writer g)"
        using o k by (simp add: refuses_within_def)
      moreover have "accepted_prefix (d_writer g) = 0" using o by (simp add: accepted_prefix_def)
      ultimately have "written (d_writer g') = written (d_writer g) @ map (FRAME_POP (thread_id g)) [] \<and>
          ok = (\<not> refuses_within (records_needed (unat count)) (d_writer g)) \<and>
          length ([] :: 8 word list) =
            (if ok then records_needed (unat count) else accepted_prefix (d_writer g)) \<and>
          (ok \<longrightarrow> d_active g' = d_active g)" using r by simp
      then show ?thesis by blast
    qed
  qed
qed

text \<open>
  C6, as stated: whatever the pending-pop counter holds, the flush writes FRAME\_POP
  records whose counts sum to the counter. It fails when the writer refuses a record:
  with one emitted frame left on the stack, 300 pops pending and a writer that takes one
  record and refuses the next, the stream gains a single FRAME\_POP of 255, and the
  counter is reset all the same.
\<close>

theorem flush_pending_pops_counterexample:
  "d_num_pending_pops refusing_state = 300 \<and>
   written (d_writer refusing_state) = [] \<and>
   written (d_writer (emitPendingPops refusing_state)) = [FRAME_POP 7 255] \<and>
   sum_list (map pop_count (written (d_writer (emitPendingPops refusing_state)))) \<noteq>
     unat (d_num_pending_pops refusing_state) \<and>
   d_num_pending_pops (emitPendingPops refusing_state) = 0"
  by (simp add: refusing_state_def fixture_defs write_defs emitPendingPops_def
      popFrames_0 popFrames_step)

text \<open>
  C6, amended. \<^verbatim>\<open>emitPendingPops\<close> appends to the stream a run of FRAME\_POP records
  of the thread, each with a count from 1 to 255, and resets the counter to zero; when
  the counter is zero it writes nothing. A flush of \<open>n\<close> pops needs \<open>(n + 254) div 255\<close>
  records. When the writer refuses none of them, the run has that many records, the
  counts sum to \<open>n\<close>, and the active flag is as it was; so it is with a writer that
  accepts every record. When the writer refuses one of them, the run ends before the
  refused record: it holds the records accepted before the first refusal, the counts sum
  to less than \<open>n\<close>, and tracking is deactivated.
\<close>

theorem flush_pending_pops_run:
  "\<exists>ns. written (d_writer (emitPendingPops g)) =
           written (d_writer g) @ map (FRAME_POP (thread_id g)) ns \<and>
        list_all (\<lambda>n. 0 < unat n \<and> unat n \<le> 255) ns \<and>
        (accepts_all (d_writer g) \<longrightarrow> sum_list (map unat ns) = unat (d_num_pending_pops g)) \<and>
        (sum_list (map unat ns) \<noteq> unat (d_num_pending_pops g) \<longrightarrow>
           sum_list (map unat ns) < unat (d_num_pending_pops g) \<and>
           \<not> d_active (emitPendingPops g)) \<and>
        (d_num_pending_pops g = 0 \<longrightarrow> ns = []) \<and>
        d_num_pending_pops (emitPendingPops g) = 0 \<and>
        (\<not> refuses_within (records_needed (unat (d_num_pending_pops g))) (d_writer g) \<longrightarrow>
           sum_list (map unat ns) = unat (d_num_pending_pops g) \<and>
           length ns = records_needed (unat (d_num_pending_pops g)) \<and>
           d_active (emitPendingPops g) = d_active g) \<and>
        (refuses_within (records_needed (unat (d_num_pending_pops g))) (d_writer g) \<longrightarrow>
           length ns = accepted_prefix (d_writer g) \<and>
           sum_list (map unat ns) < unat (d_num_pending_pops g) \<and>
           \<not> d_active (emitPendingPops g))"
proof -
  let ?n = "d_num_pending_pops g"
  obtain ok g' where p: "popFrames ?n g = (ok, g')"
    by (cases "popFrames ?n g")
  from popFrames_written [OF p] obtain ns where
    ns: "written (d_writer g') = written (d_writer g) @ map (FRAME_POP (thread_id g)) ns"
      "list_all (\<lambda>n. 0 < unat n \<and> unat n \<le> 255) ns"
      "ok \<longrightarrow> sum_list (map unat ns) = unat ?n"
      "\<not> ok \<longrightarrow> sum_list (map unat ns) < unat ?n \<and> \<not> d_active g'"
      "accepts_all (d_writer g) \<longrightarrow> ok" by blast
  from popFrames_refusal [OF p] obtain ms where
    ms: "written (d_writer g') = written (d_writer g) @ map (FRAME_POP (thread_id g)) ms"
      "ok = (\<not> refuses_within (records_needed (unat ?n)) (d_writer g))"
      "length ms = (if ok then records_needed (unat ?n) else accepted_prefix (d_writer g))"
      "ok \<longrightarrow> d_active g' = d_active g" by blast
  have "inj (FRAME_POP (thread_id g))" by (simp add: inj_on_def)
  with ns(1) ms(1) have same: "ms = ns" by (simp add: inj_map_eq_map)
  have e: "emitPendingPops g = g'\<lparr>d_num_pending_pops := 0\<rparr>"
    using p by (simp add: emitPendingPops_def)
  have z: "?n = 0 \<longrightarrow> ns = []"
  proof
    assume "?n = 0"
    with p have "g' = g" by (simp add: popFrames_0)
    with ns(1) show "ns = []" by simp
  qed
  have c1: "written (d_writer (emitPendingPops g)) =
           written (d_writer g) @ map (FRAME_POP (thread_id g)) ns" using e ns(1) by simp
  have c3: "accepts_all (d_writer g) \<longrightarrow> sum_list (map unat ns) = unat ?n"
    using ns(3,5) by blast
  have c4: "sum_list (map unat ns) \<noteq> unat ?n \<longrightarrow>
           sum_list (map unat ns) < unat ?n \<and> \<not> d_active (emitPendingPops g)"
    using ns(3,4) e by auto
  have c6: "d_num_pending_pops (emitPendingPops g) = 0" using e by simp
  have c7: "\<not> refuses_within (records_needed (unat ?n)) (d_writer g) \<longrightarrow>
           sum_list (map unat ns) = unat ?n \<and> length ns = records_needed (unat ?n) \<and>
           d_active (emitPendingPops g) = d_active g"
    using ms(2,3,4) ns(3) same e by simp
  have c8: "refuses_within (records_needed (unat ?n)) (d_writer g) \<longrightarrow>
           length ns = accepted_prefix (d_writer g) \<and> sum_list (map unat ns) < unat ?n \<and>
           \<not> d_active (emitPendingPops g)"
    using ms(2,3) ns(4) same e by simp
  from c1 ns(2) c3 c4 z c6 c7 c8 show ?thesis by blast
qed

text \<open>An accepting writer with 300 pops pending (records of 255 and 45), a flush with
  nothing pending, and 300 pops pending on a writer that refuses the second record.\<close>

theorem flush_pending_pops_run_witness:
  "accepts_all (d_writer (with_stack [] 300 None)) \<and>
   written (d_writer (emitPendingPops (with_stack [] 300 None))) =
     written (d_writer (with_stack [] 300 None)) @ map (FRAME_POP 7) [255, 45] \<and>
   (\<exists>ns. written (d_writer (emitPendingPops (with_stack [] 300 None))) =
           written (d_writer (with_stack [] 300 None)) @ map (FRAME_POP 7) ns \<and>
         list_all (\<lambda>n. 0 < unat n \<and> unat n \<le> 255) ns \<and>
         sum_list (map unat ns) = 300) \<and>
   d_num_pending_pops (emitPendingPops (with_stack [] 300 None)) = 0 \<and>
   d_num_pending_pops (with_stack [] 0 None) = 0 \<and>
   written (d_writer (emitPendingPops (with_stack [] 0 None))) = [] \<and>
   refuses_within (records_needed (unat (d_num_pending_pops refusing_state))) (d_writer refusing_state) \<and>
   accepted_prefix (d_writer refusing_state) = 1 \<and>
   (\<exists>ns. written (d_writer (emitPendingPops refusing_state)) =
           written (d_writer refusing_state) @ map (FRAME_POP 7) ns \<and>
         length ns = 1 \<and> sum_list (map unat ns) < 300) \<and>
   \<not> d_active (emitPendingPops refusing_state)"
proof -
  have h: "accepts_all (d_writer (with_stack [] 300 None))"
    by (simp add: accepts_all_def fixture_defs)
  have t: "thread_id (with_stack [] 300 None) = 7" "unat (d_num_pending_pops (with_stack [] 300 None)) = 300"
    by (simp_all add: fixture_defs)
  have c: "written (d_writer (emitPendingPops (with_stack [] 300 None))) =
     written (d_writer (with_stack [] 300 None)) @ map (FRAME_POP 7) [255, 45]"
    by (simp add: fixture_defs write_defs emitPendingPops_def popFrames_0 popFrames_step)
  have z: "d_num_pending_pops (with_stack [] 0 None) = 0" "written (d_writer (with_stack [] 0 None)) = []"
    by (simp_all add: fixture_defs)
  from flush_pending_pops_run [of "with_stack [] 0 None"] z
  have z': "written (d_writer (emitPendingPops (with_stack [] 0 None))) = []" by auto
  from flush_pending_pops_run [of "with_stack [] 300 None"] h t
  have ex: "\<exists>ns. written (d_writer (emitPendingPops (with_stack [] 300 None))) =
           written (d_writer (with_stack [] 300 None)) @ map (FRAME_POP 7) ns \<and>
         list_all (\<lambda>n. 0 < unat n \<and> unat n \<le> 255) ns \<and>
         sum_list (map unat ns) = 300"
    and p0: "d_num_pending_pops (emitPendingPops (with_stack [] 300 None)) = 0" by auto
  have rt: "thread_id refusing_state = 7" "unat (d_num_pending_pops refusing_state) = 300"
    by (simp_all add: refusing_state_def fixture_defs)
  have rf: "refuses_within (records_needed (unat (d_num_pending_pops refusing_state)))
              (d_writer refusing_state)"
    by (simp add: rt) (simp add: refusing_state_def records_needed_def refuses_within_def)
  have ap: "accepted_prefix (d_writer refusing_state) = 1"
    by (simp add: refusing_state_def accepted_prefix_def)
  from flush_pending_pops_run [of refusing_state] rf ap rt
  have rex: "\<exists>ns. written (d_writer (emitPendingPops refusing_state)) =
           written (d_writer refusing_state) @ map (FRAME_POP 7) ns \<and>
         length ns = 1 \<and> sum_list (map unat ns) < 300"
    and rd: "\<not> d_active (emitPendingPops refusing_state)" by auto
  from h c ex p0 z(1) z' rf ap rex rd show ?thesis by (intro conjI)
qed

section \<open>The order of the records of one event\<close>













section \<open>The trace hook on a call event\<close>

text \<open>
  C9, as stated: on every call event the hook pushes a frame and returns 0 when both
  names decode, and returns -1 when one does not. The hook first looks at the tracker's
  active flag: on a thread whose tracker is not active, a call event for a frame whose
  names decode pushes nothing, and a call event for a frame whose name does not decode
  returns 0.
\<close>

theorem trace_hook_call_counterexample:
  "co_name (demo_heap 1) = Some ''f'' \<and> co_filename (demo_heap 1) = Some ''app.py'' \<and>
   PyTraceFunction demo_heap 1 PyTrace_CALL idle_state = (0, idle_state) \<and>
   d_stack idle_state = None \<and>
   co_name (demo_heap 0) = None \<and>
   PyTraceFunction demo_heap 0 PyTrace_CALL idle_state = (0, idle_state)"
  by (simp add: PyTraceFunction_def demo_heap_def idle_state_def)

lemma line_guard:
  "getCurrentPythonLineNumber heap (g\<lparr>isActive := b\<rparr>) = getCurrentPythonLineNumber heap g"
  by (simp add: getCurrentPythonLineNumber_def split: option.splits)

lemma push_guard:
  "(pushPythonFrame fp fn fl ln (g\<lparr>isActive := True\<rparr>))\<lparr>isActive := isActive g\<rparr> =
     pushPythonFrame fp fn fl ln g"
  by (simp add: pushPythonFrame_def Let_def)

text \<open>
  C9, amended. While the tracker is active, a call event whose function name or file name
  does not decode makes the hook return -1 with the state as it was (no frame pushed); a
  call event whose names both decode makes it push one unemitted frame, carrying the two
  names and the current line as the parent line, and return 0. While the tracker is not
  active the hook returns 0 and changes nothing.
\<close>

theorem trace_hook_call:
  "(d_active g \<longrightarrow>
      (co_name (heap fp) = None \<or> co_filename (heap fp) = None \<longrightarrow>
         PyTraceFunction heap fp PyTrace_CALL g = (- 1, g)) \<and>
      (\<forall>fn fl. co_name (heap fp) = Some fn \<and> co_filename (heap fp) = Some fl \<longrightarrow>
         PyTraceFunction heap fp PyTrace_CALL g =
           (0, pushPythonFrame (Some fp) fn fl (getCurrentPythonLineNumber heap g) g) \<and>
         stack_of (snd (PyTraceFunction heap fp PyTrace_CALL g)) =
           stack_of g @
             [\<lparr>frame = Some fp,
               raw_frame_record =
                 \<lparr>function_name = fn, filename = fl, lineno = getCurrentPythonLineNumber heap g\<rparr>,
               emitted = False\<rparr>])) \<and>
   (\<not> d_active g \<longrightarrow> PyTraceFunction heap fp PyTrace_CALL g = (0, g))"
proof -
  have inactive: "\<not> d_active g \<Longrightarrow> PyTraceFunction heap fp PyTrace_CALL g = (0, g)"
    by (simp add: PyTraceFunction_def Let_def)
  have undecoded: "d_active g \<Longrightarrow> co_name (heap fp) = None \<or> co_filename (heap fp) = None \<Longrightarrow>
      PyTraceFunction heap fp PyTrace_CALL g = (- 1, g)"
    by (auto simp: PyTraceFunction_def Let_def split: option.splits)
  have decoded: "PyTraceFunction heap fp PyTrace_CALL g =
           (0, pushPythonFrame (Some fp) fn fl (getCurrentPythonLineNumber heap g) g)"
    if "d_active g" "co_name (heap fp) = Some fn" "co_filename (heap fp) = Some fl" for fn fl
    using that by (simp add: PyTraceFunction_def Let_def line_guard push_guard)
  have pushed: "stack_of (pushPythonFrame (Some fp) fn fl ln g) =
           stack_of g @ [\<lparr>frame = Some fp,
               raw_frame_record = \<lparr>function_name = fn, filename = fl, lineno = ln\<rparr>,
               emitted = False\<rparr>]" for fn fl ln
    by (simp add: pushPythonFrame_def stack_of_def Let_def split: option.splits)
  show ?thesis using inactive undecoded decoded pushed by simp
qed

text \<open>An active tracker with a frame whose name does not decode and with one whose
  names do, and the same call event on a thread whose tracker is not active.\<close>

theorem trace_hook_call_witness:
  "d_active tracking_state \<and>
   co_name (demo_heap 0) = None \<and>
   PyTraceFunction demo_heap 0 PyTrace_CALL tracking_state = (- 1, tracking_state) \<and>
   co_name (demo_heap 1) = Some ''f'' \<and> co_filename (demo_heap 1) = Some ''app.py'' \<and>
   PyTraceFunction demo_heap 1 PyTrace_CALL tracking_state =
     (0, tracking_state\<lparr>d_stack := Some [(lef 1 ''f'' False)\<lparr>raw_frame_record :=
           \<lparr>function_name = ''f'', filename = ''app.py'', lineno = 0\<rparr>\<rparr>]\<rparr>) \<and>
   \<not> d_active idle_state \<and>
   PyTraceFunction demo_heap 1 PyTrace_CALL idle_state = (0, idle_state)"
proof -
  have a: "d_active tracking_state" and b: "\<not> d_active idle_state"
    by (simp_all add: fixture_defs)
  have n: "co_name (demo_heap 0) = None" "co_name (demo_heap 1) = Some ''f''"
    "co_filename (demo_heap 1) = Some ''app.py''"
    by (simp_all add: demo_heap_def)
  have p: "pushPythonFrame (Some 1) ''f'' ''app.py'' (getCurrentPythonLineNumber demo_heap tracking_state)
             tracking_state =
           tracking_state\<lparr>d_stack := Some [(lef 1 ''f'' False)\<lparr>raw_frame_record :=
           \<lparr>function_name = ''f'', filename = ''app.py'', lineno = 0\<rparr>\<rparr>]\<rparr>"
    by (simp add: pushPythonFrame_def getCurrentPythonLineNumber_def fixture_defs)
  from a b n p trace_hook_call [of tracking_state demo_heap 0]
    trace_hook_call [of tracking_state demo_heap 1] trace_hook_call [of idle_state demo_heap 1]
  show ?thesis by simp
qed

section \<open>The stream a construction begins with\<close>














end
